theory Spec2Isabelle
  imports Complex_Main "HOL-Library.Multiset"
begin

section \<open>Values, vectors and faults\<close>

text \<open>
  The source is \<^verbatim>\<open>src/uvQuery.cpp\<close>. A \<^verbatim>\<open>double\<close> is modelled as a real number:
  the sweep only compares, takes \<open>min\<close>/\<open>max\<close> and adds one; rounding, overflow and NaN
  are outside the model (the one IEEE case that HOL would silently change, division by
  zero in \<^verbatim>\<open>closestBruteForceEdge\<close>, is written out there). \<^verbatim>\<open>uv_t\<close> and \<^verbatim>\<open>edge_t\<close> come
  from \<^verbatim>\<open>uvMath.h\<close>, which is not part of the sources; the code only ever reads components
  \<^verbatim>\<open>[0]\<close> and \<^verbatim>\<open>[1]\<close> of either, so both are pairs. \<^verbatim>\<open>size_t\<close> is a natural number:
  every index is bounded by the size of a vector, so no arithmetic on it wraps.
\<close>

type_synonym uv_t = "real \<times> real"
type_synonym edge_t = "nat \<times> nat"

text \<open>
  \<^verbatim>\<open>operator[]\<close> of \<^verbatim>\<open>std::vector\<close> is unchecked: an index outside the vector is undefined
  behaviour. The model makes every such access a fault that carries the line of the source
  where it happens.
\<close>

datatype error = OutOfRange nat

definition vec_at :: "nat \<Rightarrow> 'a list \<Rightarrow> nat \<Rightarrow> error + 'a" where
  "vec_at line xs i = (if i < length xs then Inr (xs ! i) else Inl (OutOfRange line))"

definition and_then :: "error + 'a \<Rightarrow> ('a \<Rightarrow> error + 'b) \<Rightarrow> error + 'b" where
  "and_then m f = (case m of Inl e \<Rightarrow> Inl e | Inr x \<Rightarrow> f x)"

text \<open>\<^verbatim>\<open>v.resize(n)\<close>: keeps the first \<open>n\<close> elements and value-initialises the new ones.\<close>

definition resize :: "nat \<Rightarrow> nat list \<Rightarrow> nat list" where
  "resize n xs = take n xs @ replicate (n - length xs) 0"

section \<open>argsort (lines 19-33)\<close>

text \<open>
  \<^verbatim>\<open>std::stable_sort\<close> with a comparator \<open>lt\<close> is modelled by a stable insertion sort: an
  element is placed after every element that the comparator puts before it or leaves
  equivalent to it, and elements are inserted from the back of the input.
\<close>

fun insert_sorted :: "('a \<Rightarrow> 'a \<Rightarrow> bool) \<Rightarrow> 'a \<Rightarrow> 'a list \<Rightarrow> 'a list" where
  "insert_sorted lt x [] = [x]"
| "insert_sorted lt x (y # ys) =
     (if lt y x then y # insert_sorted lt x ys else x # y # ys)"

fun stable_sort :: "('a \<Rightarrow> 'a \<Rightarrow> bool) \<Rightarrow> 'a list \<Rightarrow> 'a list" where
  "stable_sort lt [] = []"
| "stable_sort lt (x # xs) = insert_sorted lt x (stable_sort lt xs)"

definition iota :: "nat \<Rightarrow> nat list" where
  "iota n = [0..<n]"

definition argsort :: "'a::linorder list \<Rightarrow> nat list" where
  "argsort v = stable_sort (\<lambda>i1 i2. v ! i1 < v ! i2) (iota (length v))"

section \<open>closestBruteForceEdge (lines 148-186)\<close>

text \<open>
  Line 168 divides by \<^verbatim>\<open>dr2[i]\<close>. In HOL \<open>x / 0 = 0\<close>; in IEEE arithmetic the quotient
  is an infinity or, for \<^verbatim>\<open>0 / 0\<close>, a NaN. The quotient is therefore a value of its own
  type, and the clamp of line 170 is applied to it as the two comparisons of the source
  decide: an infinity is clamped, a NaN passes both comparisons and stays a NaN.
  (A real number has no negative zero: the divisor is taken as \<^verbatim>\<open>+0\<close>, which is what
  \<^verbatim>\<open>handleMissing\<close> passes, a square.)
\<close>

datatype quotient = Fin real | PInf | NInf | NaN

definition fdiv :: "real \<Rightarrow> real \<Rightarrow> quotient" where
  "fdiv x y = (if y \<noteq> 0 then Fin (x / y)
               else if 0 < x then PInf else if x < 0 then NInf else NaN)"

fun clamp01 :: "quotient \<Rightarrow> real option" where
  "clamp01 (Fin l) = Some (if l < 0 then 0 else if 1 < l then 1 else l)"
| "clamp01 PInf = Some 1"
| "clamp01 NInf = Some 0"
| "clamp01 NaN = None"

text \<open>\<^verbatim>\<open>std::numeric_limits<double>::max()\<close>.\<close>

definition DBL_MAX :: real where
  "DBL_MAX = (2 ^ 53 - 1) * 2 ^ 971"

text \<open>
  Lines 168-178 for one edge: the squared length \<^verbatim>\<open>l2\<close>, or \<open>None\<close> when it is a NaN
  (every arithmetic operation on a NaN gives a NaN).
\<close>

definition edge_l2 :: "uv_t \<Rightarrow> uv_t \<Rightarrow> real \<Rightarrow> uv_t \<Rightarrow> real option" where
  "edge_l2 aa dd r2 pt =
     (case clamp01 (fdiv ((fst pt - fst aa) * fst dd + (snd pt - snd aa) * snd dd) r2) of
        None \<Rightarrow> None
      | Some lerp \<Rightarrow>
          (let c0 = fst dd * lerp + fst aa - fst pt;
               c1 = snd dd * lerp + snd aa - snd pt
           in Some (c0 * c0 + c1 * c1)))"

text \<open>
  The loop of lines 162-184 over the indices \<open>i\<close>, with the pair \<^verbatim>\<open>(minIdx, minVal)\<close> as
  its state. \<^verbatim>\<open>l2 < minVal\<close> is false for a NaN. (\<^verbatim>\<open>minIdx\<close> is a \<^verbatim>\<open>double\<close> in the
  source; it holds every index below \<open>2^53\<close> exactly.)
\<close>

fun scan_edges ::
  "uv_t list \<Rightarrow> uv_t list \<Rightarrow> real list \<Rightarrow> uv_t \<Rightarrow> nat list \<Rightarrow> nat \<times> real \<Rightarrow> error + nat"
where
  "scan_edges a d dr2 pt [] (minIdx, minVal) = Inr minIdx"
| "scan_edges a d dr2 pt (i # is) (minIdx, minVal) =
     and_then (vec_at 163 a i) (\<lambda>aa.
     and_then (vec_at 164 d i) (\<lambda>dd.
     and_then (vec_at 168 dr2 i) (\<lambda>r2.
       (case edge_l2 aa dd r2 pt of
          Some l2 \<Rightarrow>
            if l2 < minVal then scan_edges a d dr2 pt is (i, l2)
            else scan_edges a d dr2 pt is (minIdx, minVal)
        | None \<Rightarrow> scan_edges a d dr2 pt is (minIdx, minVal)))))"

definition closestBruteForceEdge ::
  "uv_t list \<Rightarrow> uv_t list \<Rightarrow> real list \<Rightarrow> uv_t \<Rightarrow> error + nat" where
  "closestBruteForceEdge a d dr2 pt = scan_edges a d dr2 pt [0..<length a] (0, DBL_MAX)"

section \<open>handleMissing (lines 190-225)\<close>

text \<open>The loop of lines 209-217: the vectors \<^verbatim>\<open>starts\<close>, \<^verbatim>\<open>bDiff\<close> and \<^verbatim>\<open>bLens2\<close>.\<close>

fun build_borders ::
  "uv_t list \<Rightarrow> edge_t list \<Rightarrow> uv_t list \<times> uv_t list \<times> real list
     \<Rightarrow> error + (uv_t list \<times> uv_t list \<times> real list)"
where
  "build_borders uvs [] acc = Inr acc"
| "build_borders uvs (b # bs) (starts, bDiff, bLens2) =
     and_then (vec_at 210 uvs (fst b)) (\<lambda>uv1.
     and_then (vec_at 211 uvs (snd b)) (\<lambda>uv2.
       (let diff = (fst uv2 - fst uv1, snd uv2 - snd uv1);
            delta = snd diff - fst diff
        in build_borders uvs bs (starts @ [uv1], bDiff @ [diff], bLens2 @ [delta * delta]))))"

text \<open>The loop of lines 219-224 over \<^verbatim>\<open>missing\<close>, with \<^verbatim>\<open>triIdxs\<close> as its state.\<close>

fun assign_missing ::
  "uv_t list \<Rightarrow> uv_t list \<Rightarrow> uv_t list \<Rightarrow> real list \<Rightarrow> nat list \<Rightarrow> nat list \<Rightarrow> nat list
     \<Rightarrow> error + nat list"
where
  "assign_missing uvs starts bDiff bLens2 borderToTri [] triIdxs = Inr triIdxs"
| "assign_missing uvs starts bDiff bLens2 borderToTri (mIdx # ms) triIdxs =
     and_then (vec_at 220 uvs mIdx) (\<lambda>mp.
     and_then (closestBruteForceEdge starts bDiff bLens2 mp) (\<lambda>closestEdge.
     and_then (vec_at 222 borderToTri closestEdge) (\<lambda>triIdx.
       if mIdx < length triIdxs
       then assign_missing uvs starts bDiff bLens2 borderToTri ms (triIdxs[mIdx := triIdx])
       else Inl (OutOfRange 223))))"

definition handleMissing ::
  "uv_t list \<Rightarrow> edge_t list \<Rightarrow> nat list \<Rightarrow> nat list \<Rightarrow> nat list \<Rightarrow> error + nat list" where
  "handleMissing uvs borders missing borderToTri triIdxs =
     and_then (build_borders uvs borders ([], [], [])) (\<lambda>(starts, bDiff, bLens2).
       assign_missing uvs starts bDiff bLens2 borderToTri missing triIdxs)"

text \<open>
  The distance of the specification, for comparison with the code: the point is projected
  onto the line of the edge from \<open>s\<close> to \<open>e\<close>, the parameter \<open>dot (p - s) (e - s)\<close> divided
  by the squared length \<open>dx^2 + dy^2\<close> is clamped to \<open>[0, 1]\<close>, and the squared distance
  from the point to that clamped projection is measured.
\<close>

definition spec_seg_dist2 :: "uv_t \<Rightarrow> uv_t \<Rightarrow> uv_t \<Rightarrow> real" where
  "spec_seg_dist2 p s e =
     (let dx = fst e - fst s; dy = snd e - snd s;
          t = ((fst p - fst s) * dx + (snd p - snd s) * dy) / (dx * dx + dy * dy);
          tc = max 0 (min 1 t);
          c0 = fst s + tc * dx - fst p;
          c1 = snd s + tc * dy - snd p
      in c0 * c0 + c1 * c1)"

section \<open>sweep (lines 37-145)\<close>

text \<open>
  The vectors and scalars that \<^verbatim>\<open>sweep\<close> computes before its loop and never changes
  afterwards are the environment; the variables the loop assigns are the state.

  Three things the source leaves open are parameters, kept in the environment:
  \<^item> \<open>pointInTri\<close>, declared in \<^verbatim>\<open>uvMath.h\<close>, which is not part of the sources;
  \<^item> \<open>iter_order\<close>, the order in which the range-for of line 110 yields the elements of
    the \<^verbatim>\<open>std::unordered_set\<close> (the standard does not fix it); the active set itself is
    kept as a list without repetitions;
  \<^item> \<open>sentinel_read\<close>, for the expression \<^verbatim>\<open>xmxs[mxSIdxs[-1]]\<close> of line 101. The index
    \<^verbatim>\<open>-1\<close> converts to the largest \<^verbatim>\<open>size_t\<close>, \<open>2^64 - 1\<close>. With \<open>None\<close> the read is
    checked like every other read of the model, and faults; with \<open>Some v\<close> the unchecked
    read is taken to yield the double \<open>v\<close>, whatever lies at that address, so that the
    rest of the run can be followed.
\<close>

record sweep_env =
  qPoints :: "uv_t list"
  uvs :: "uv_t list"
  tris :: "nat list"
  pointInTri :: "uv_t \<Rightarrow> uv_t \<Rightarrow> uv_t \<Rightarrow> uv_t \<Rightarrow> bool"
  iter_order :: "nat list \<Rightarrow> nat list"
  sentinel_read :: "real option"
  numTris :: nat
  ymxs :: "real list"
  ymns :: "real list"
  xmxs :: "real list"
  xmns :: "real list"
  qpx :: "real list"
  qpSIdxs :: "nat list"
  mxSIdxs :: "nat list"
  mnSIdxs :: "nat list"
  skip :: "bool list"

record sweep_state =
  qpSIdx :: nat
  mxSIdx :: nat
  mnSIdx :: nat
  qpIdx :: nat
  mxIdx :: nat
  mnIdx :: nat
  qp :: real
  mx :: real
  mn :: real
  out :: "nat list"
  missing :: "nat list"
  barys :: "uv_t list"
  activeTris :: "bool list"
  atSet :: "nat list"

text \<open>Lines 52-56 for triangle \<open>i\<close>: \<open>(xmn, ymn, xmx, ymx)\<close>.\<close>

definition tri_box :: "uv_t list \<Rightarrow> nat list \<Rightarrow> nat \<Rightarrow> error + (real \<times> real \<times> real \<times> real)" where
  "tri_box us ts i =
     (let a = 3 * i in
      and_then (vec_at 53 ts a) (\<lambda>i0.
      and_then (vec_at 53 us i0) (\<lambda>p0.
      and_then (vec_at 53 ts (a + 1)) (\<lambda>i1.
      and_then (vec_at 53 us i1) (\<lambda>p1.
      and_then (vec_at 53 ts (a + 2)) (\<lambda>i2.
      and_then (vec_at 53 us i2) (\<lambda>p2.
        Inr (min (fst p0) (min (fst p1) (fst p2)),
             min (snd p0) (min (snd p1) (snd p2)),
             max (fst p0) (max (fst p1) (fst p2)),
             max (snd p0) (max (snd p1) (snd p2))))))))))"

fun build_boxes ::
  "uv_t list \<Rightarrow> nat list \<Rightarrow> nat list \<Rightarrow> error + (real \<times> real \<times> real \<times> real) list" where
  "build_boxes us ts [] = Inr []"
| "build_boxes us ts (i # is) =
     and_then (tri_box us ts i) (\<lambda>b.
     and_then (build_boxes us ts is) (\<lambda>bs. Inr (b # bs)))"

text \<open>
  Lines 49-86. \<open>out0\<close>, \<open>missing0\<close> and \<open>barys0\<close> are the contents of the three output
  vectors when \<^verbatim>\<open>sweep\<close> is called: they are passed by reference.
\<close>

definition sweep_init ::
  "(uv_t \<Rightarrow> uv_t \<Rightarrow> uv_t \<Rightarrow> uv_t \<Rightarrow> bool) \<Rightarrow> (nat list \<Rightarrow> nat list) \<Rightarrow> real option
     \<Rightarrow> uv_t list \<Rightarrow> uv_t list \<Rightarrow> nat list \<Rightarrow> nat list \<Rightarrow> nat list \<Rightarrow> uv_t list
     \<Rightarrow> error + (sweep_env \<times> sweep_state)"
where
  "sweep_init pit ord sent qPoints0 uvs0 tris0 out0 missing0 barys0 =
     (let numTris0 = length tris0 div 3 in
      and_then (build_boxes uvs0 tris0 [0..<numTris0]) (\<lambda>boxes.
      (let xmns0 = map (\<lambda>(xmn, ymn, xmx, ymx). xmn) boxes;
           ymns0 = map (\<lambda>(xmn, ymn, xmx, ymx). ymn) boxes;
           xmxs0 = map (\<lambda>(xmn, ymn, xmx, ymx). xmx) boxes;
           ymxs0 = map (\<lambda>(xmn, ymn, xmx, ymx). ymx) boxes;
           qpx0 = map fst uvs0;
           qpSIdxs0 = argsort qpx0;
           mxSIdxs0 = argsort xmxs0;
           mnSIdxs0 = argsort xmns0
       in
       and_then (vec_at 68 qpSIdxs0 0) (\<lambda>qpIdx0.
       and_then (vec_at 69 mxSIdxs0 0) (\<lambda>mxIdx0.
       and_then (vec_at 70 mnSIdxs0 0) (\<lambda>mnIdx0.
       and_then (vec_at 71 qpx0 qpIdx0) (\<lambda>qp0.
       and_then (vec_at 72 xmxs0 mxIdx0) (\<lambda>mx0.
       and_then (vec_at 73 xmns0 mnIdx0) (\<lambda>mn0.
         Inr (\<lparr> qPoints = qPoints0, uvs = uvs0, tris = tris0, pointInTri = pit,
                 iter_order = ord, sentinel_read = sent, numTris = numTris0,
                 ymxs = ymxs0, ymns = ymns0, xmxs = xmxs0, xmns = xmns0, qpx = qpx0,
                 qpSIdxs = qpSIdxs0, mxSIdxs = mxSIdxs0, mnSIdxs = mnSIdxs0,
                 skip = map (\<lambda>x. qp0 > x) xmxs0 \<rparr>,
              \<lparr> qpSIdx = 0, mxSIdx = 0, mnSIdx = 0,
                 qpIdx = qpIdx0, mxIdx = mxIdx0, mnIdx = mnIdx0,
                 qp = qp0, mx = mx0, mn = mn0,
                 out = resize (length qPoints0) out0,
                 missing = resize (length qPoints0) missing0,
                 barys = barys0,
                 activeTris = replicate numTris0 False,
                 atSet = [] \<rparr>))))))))))"

text \<open>
  Lines 110-118: the scan of the active set for the first triangle whose y-range and
  \<open>pointInTri\<close> accept the point. \<^verbatim>\<open>&&\<close> reads \<^verbatim>\<open>ymxs[t]\<close> only after \<^verbatim>\<open>ymns[t] <= yv\<close>.
\<close>

fun find_tri :: "sweep_env \<Rightarrow> uv_t \<Rightarrow> nat list \<Rightarrow> error + nat option" where
  "find_tri E qPoint [] = Inr None"
| "find_tri E qPoint (t # ts) =
     and_then (vec_at 111 (ymns E) t) (\<lambda>ymn.
       if ymn \<le> snd qPoint then
         and_then (vec_at 111 (ymxs E) t) (\<lambda>ymx.
           if snd qPoint \<le> ymx then
             and_then (vec_at 112 (tris E) (3 * t)) (\<lambda>i0.
             and_then (vec_at 112 (uvs E) i0) (\<lambda>p0.
             and_then (vec_at 112 (tris E) (3 * t + 1)) (\<lambda>i1.
             and_then (vec_at 112 (uvs E) i1) (\<lambda>p1.
             and_then (vec_at 112 (tris E) (3 * t + 2)) (\<lambda>i2.
             and_then (vec_at 112 (uvs E) i2) (\<lambda>p2.
               if pointInTri E qPoint p0 p1 p2 then Inr (Some t)
               else find_tri E qPoint ts))))))
           else find_tri E qPoint ts)
       else find_tri E qPoint ts)"

definition SIZE_MAX :: nat where
  "SIZE_MAX = 2 ^ 64 - 1"

text \<open>The expression \<^verbatim>\<open>xmxs[mxSIdxs[-1]]\<close> of line 101.\<close>

definition read_sentinel :: "sweep_env \<Rightarrow> error + real" where
  "read_sentinel E =
     (case sentinel_read E of
        Some v \<Rightarrow> Inr v
      | None \<Rightarrow> and_then (vec_at 101 (mxSIdxs E) SIZE_MAX) (\<lambda>i. vec_at 101 (xmxs E) i))"

datatype loop_ctl = Break sweep_state | Next sweep_state

fun ctl_state :: "loop_ctl \<Rightarrow> sweep_state" where
  "ctl_state (Break s) = s"
| "ctl_state (Next s) = s"

text \<open>Lines 89-103, the branch that activates a triangle.\<close>

definition activate :: "sweep_env \<Rightarrow> sweep_state \<Rightarrow> error + loop_ctl" where
  "activate E s =
     and_then (vec_at 90 (mnSIdxs E) (mnSIdx s)) (\<lambda>aTriIdx.
     and_then (vec_at 91 (activeTris s) aTriIdx) (\<lambda>act.
     and_then
       (if act then Inr s
        else and_then (vec_at 91 (skip E) aTriIdx) (\<lambda>sk.
          Inr (if sk then s
               else s\<lparr> activeTris := (activeTris s)[aTriIdx := True],
                        atSet := List.insert aTriIdx (atSet s) \<rparr>)))
       (\<lambda>s1.
         (let k = mnSIdx s1 + 1 in
          if k \<noteq> numTris E then
            and_then (vec_at 97 (mnSIdxs E) k) (\<lambda>mnIdx1.
            and_then (vec_at 98 (xmns E) mnIdx1) (\<lambda>mn1.
              Inr (Next (s1\<lparr> mnSIdx := k, mnIdx := mnIdx1, mn := mn1 \<rparr>))))
          else
            and_then (read_sentinel E) (\<lambda>v.
              Inr (Next (s1\<lparr> mnSIdx := k, mn := v + 1 \<rparr>)))))))"

text \<open>Lines 104-129, the branch that tests the current query point.\<close>

definition test :: "sweep_env \<Rightarrow> sweep_state \<Rightarrow> error + loop_ctl" where
  "test E s =
     and_then (vec_at 106 (qPoints E) (qpIdx s)) (\<lambda>qPoint.
     and_then (find_tri E qPoint (iter_order E (atSet s))) (\<lambda>hit.
     and_then
       (case hit of
          Some t \<Rightarrow>
            if qpIdx s < length (out s) then Inr (s\<lparr> out := (out s)[qpIdx s := t] \<rparr>)
            else Inl (OutOfRange 113)
        | None \<Rightarrow> Inr (s\<lparr> missing := missing s @ [qpIdx s] \<rparr>))
       (\<lambda>s1.
         (let k = qpSIdx s1 + 1 in
          if k = length (qpSIdxs E) then Inr (Break (s1\<lparr> qpSIdx := k \<rparr>))
          else
            and_then (vec_at 127 (qpSIdxs E) k) (\<lambda>qpIdx1.
            and_then (vec_at 128 (qpx E) qpIdx1) (\<lambda>qp1.
              Inr (Next (s1\<lparr> qpSIdx := k, qpIdx := qpIdx1, qp := qp1 \<rparr>))))))))"

text \<open>Lines 130-143, the branch that deactivates a triangle.\<close>

definition deactivate :: "sweep_env \<Rightarrow> sweep_state \<Rightarrow> error + loop_ctl" where
  "deactivate E s =
     and_then (vec_at 132 (mxSIdxs E) (mxSIdx s)) (\<lambda>aTriIdx.
     and_then (vec_at 133 (activeTris s) aTriIdx) (\<lambda>act.
     and_then
       (if act then
          and_then (vec_at 133 (skip E) aTriIdx) (\<lambda>sk.
            Inr (if sk then s
                 else s\<lparr> activeTris := (activeTris s)[aTriIdx := False],
                          atSet := removeAll aTriIdx (atSet s) \<rparr>))
        else Inr s)
       (\<lambda>s1.
         (let k = mxSIdx s1 + 1 in
          if k \<noteq> length (mxSIdxs E) then
            and_then (vec_at 140 (mxSIdxs E) k) (\<lambda>mxIdx1.
            and_then (vec_at 141 (xmxs E) mxIdx1) (\<lambda>mx1.
              Inr (Next (s1\<lparr> mxSIdx := k, mxIdx := mxIdx1, mx := mx1 \<rparr>))))
          else Inr (Next (s1\<lparr> mxSIdx := k \<rparr>))))))"

text \<open>One pass through the body of \<^verbatim>\<open>while (true)\<close>, lines 89-143.\<close>

definition sweep_step :: "sweep_env \<Rightarrow> sweep_state \<Rightarrow> error + loop_ctl" where
  "sweep_step E s =
     (if mn s \<le> mx s \<and> mn s \<le> qp s then activate E s
      else if qp s \<le> mx s then test E s
      else deactivate E s)"

text \<open>
  The loop. Every pass that continues has read one of the three sorted permutations at
  its cursor, in range, and moved that cursor on, so the distance of the cursors to the
  ends of their vectors decreases: the function is total.
\<close>

function sweep_loop :: "sweep_env \<Rightarrow> sweep_state \<Rightarrow> error + sweep_state" where
  "sweep_loop E s =
     (case sweep_step E s of
        Inl e \<Rightarrow> Inl e
      | Inr (Break s1) \<Rightarrow> Inr s1
      | Inr (Next s1) \<Rightarrow> sweep_loop E s1)"
  by pat_completeness auto
termination
proof (relation "measure (\<lambda>(E, s). (length (mnSIdxs E) - mnSIdx s)
    + (length (mxSIdxs E) - mxSIdx s) + (length (qpSIdxs E) - qpSIdx s))")
  show "wf (measure (\<lambda>(E, s). (length (mnSIdxs E) - mnSIdx s)
    + (length (mxSIdxs E) - mxSIdx s) + (length (qpSIdxs E) - qpSIdx s)))"
    by simp
next
  fix E s c s1
  assume step: "sweep_step E s = Inr c" and c: "c = Next s1"
  have "(length (mnSIdxs E) - mnSIdx s1) + (length (mxSIdxs E) - mxSIdx s1)
          + (length (qpSIdxs E) - qpSIdx s1)
      < (length (mnSIdxs E) - mnSIdx s) + (length (mxSIdxs E) - mxSIdx s)
          + (length (qpSIdxs E) - qpSIdx s)"
    using step c
    by (auto simp: sweep_step_def activate_def test_def deactivate_def and_then_def
        vec_at_def Let_def split: if_splits sum.splits option.splits)
  then show "((E, s1), (E, s)) \<in> measure (\<lambda>(E, s). (length (mnSIdxs E) - mnSIdx s)
    + (length (mxSIdxs E) - mxSIdx s) + (length (qpSIdxs E) - qpSIdx s))"
    by simp
qed

declare sweep_loop.simps [simp del]

text \<open>The states at the head of the loop: \<open>sweep_iter E n s\<close> makes \<open>n\<close> passes from \<open>s\<close>.\<close>

fun sweep_iter :: "sweep_env \<Rightarrow> nat \<Rightarrow> sweep_state \<Rightarrow> error + loop_ctl" where
  "sweep_iter E 0 s = Inr (Next s)"
| "sweep_iter E (Suc n) s =
     (case sweep_step E s of
        Inr (Next s1) \<Rightarrow> sweep_iter E n s1
      | r \<Rightarrow> r)"

text \<open>\<^verbatim>\<open>sweep\<close>: the contents of \<^verbatim>\<open>out\<close>, \<^verbatim>\<open>missing\<close> and \<^verbatim>\<open>barys\<close> when it returns.\<close>

definition sweep ::
  "(uv_t \<Rightarrow> uv_t \<Rightarrow> uv_t \<Rightarrow> uv_t \<Rightarrow> bool) \<Rightarrow> (nat list \<Rightarrow> nat list) \<Rightarrow> real option
     \<Rightarrow> uv_t list \<Rightarrow> uv_t list \<Rightarrow> nat list \<Rightarrow> nat list \<Rightarrow> nat list \<Rightarrow> uv_t list
     \<Rightarrow> error + (nat list \<times> nat list \<times> uv_t list)"
where
  "sweep pit ord sent qPoints0 uvs0 tris0 out0 missing0 barys0 =
     and_then (sweep_init pit ord sent qPoints0 uvs0 tris0 out0 missing0 barys0) (\<lambda>(E, s).
     and_then (sweep_loop E s) (\<lambda>s1. Inr (out s1, missing s1, barys s1)))"

text \<open>The contents of the three output vectors after \<open>n\<close> passes of the loop.\<close>

definition sweep_after ::
  "nat \<Rightarrow> (uv_t \<Rightarrow> uv_t \<Rightarrow> uv_t \<Rightarrow> uv_t \<Rightarrow> bool) \<Rightarrow> (nat list \<Rightarrow> nat list) \<Rightarrow> real option
     \<Rightarrow> uv_t list \<Rightarrow> uv_t list \<Rightarrow> nat list \<Rightarrow> nat list \<Rightarrow> nat list \<Rightarrow> uv_t list
     \<Rightarrow> error + (nat list \<times> nat list \<times> uv_t list)"
where
  "sweep_after n pit ord sent qPoints0 uvs0 tris0 out0 missing0 barys0 =
     and_then (sweep_init pit ord sent qPoints0 uvs0 tris0 out0 missing0 barys0) (\<lambda>(E, s).
     and_then (sweep_iter E n s) (\<lambda>c.
       Inr (out (ctl_state c), missing (ctl_state c), barys (ctl_state c))))"

text \<open>
  Modelled from the spec: \<^verbatim>\<open>pointInTri\<close> is declared in \<^verbatim>\<open>uvMath.h\<close>, which is not part of
  the sources; the specification calls it the exact point-in-triangle predicate. This
  instance accepts the points of the closed triangle (the three edge functions do not
  take both signs). It serves only to run the sweep on concrete inputs: every general
  statement below is about an arbitrary predicate.
\<close>

definition closed_tri :: "uv_t \<Rightarrow> uv_t \<Rightarrow> uv_t \<Rightarrow> uv_t \<Rightarrow> bool" where
  "closed_tri p a b c =
     (let e0 = (fst b - fst a) * (snd p - snd a) - (snd b - snd a) * (fst p - fst a);
          e1 = (fst c - fst b) * (snd p - snd b) - (snd c - snd b) * (fst p - fst b);
          e2 = (fst a - fst c) * (snd p - snd c) - (snd a - snd c) * (fst p - fst c)
      in (0 \<le> e0 \<and> 0 \<le> e1 \<and> 0 \<le> e2) \<or> (e0 \<le> 0 \<and> e1 \<le> 0 \<and> e2 \<le> 0))"

section \<open>Invariants of the sweep\<close>

text \<open>The active set and the presence flags agree, and no skipped triangle is active.\<close>

definition active_ok :: "sweep_env \<Rightarrow> sweep_state \<Rightarrow> bool" where
  "active_ok E s \<longleftrightarrow>
     length (activeTris s) = numTris E
     \<and> (\<forall>t<numTris E. t \<in> set (atSet s) \<longleftrightarrow> activeTris s ! t)
     \<and> (\<forall>t\<in>set (atSet s). t < numTris E \<and> \<not> skip E ! t)
     \<and> distinct (atSet s)"

text \<open>\<open>pointInTri\<close> accepts the point \<open>q\<close> for triangle \<open>t\<close> (the call of line 112).\<close>

definition tri_accepts :: "sweep_env \<Rightarrow> uv_t \<Rightarrow> nat \<Rightarrow> bool" where
  "tri_accepts E q t \<longleftrightarrow>
     pointInTri E q (uvs E ! (tris E ! (3 * t))) (uvs E ! (tris E ! (3 * t + 1)))
       (uvs E ! (tris E ! (3 * t + 2)))"

text \<open>
  The query cursor of a state at the head of the loop, and what the loop has done to
  \<^verbatim>\<open>out\<close> and \<^verbatim>\<open>missing\<close> so far: \<open>n\<close> is the number of query points, \<open>r\<close> the vector
  \<^verbatim>\<open>out\<close> as \<^verbatim>\<open>resize\<close> left it, and the positions the cursor has passed are the visited
  indices.
\<close>

definition cursor_ok :: "sweep_env \<Rightarrow> sweep_state \<Rightarrow> bool" where
  "cursor_ok E s \<longleftrightarrow>
     qpSIdx s < length (qpSIdxs E) \<and> qpIdx s = qpSIdxs E ! qpSIdx s"

definition data_ok :: "sweep_env \<Rightarrow> nat \<Rightarrow> nat list \<Rightarrow> nat list \<Rightarrow> sweep_state \<Rightarrow> bool" where
  "data_ok E n r m s \<longleftrightarrow>
     length (out s) = n \<and> take n (missing s) = m \<and> length m = n
     \<and> (\<forall>i<n. i \<notin> set (take (qpSIdx s) (qpSIdxs E)) \<longrightarrow> out s ! i = r ! i)
     \<and> (\<forall>i<n. out s ! i \<noteq> r ! i \<longrightarrow> tri_accepts E (qPoints E ! i) (out s ! i))
     \<and> (\<forall>i\<in>set (drop n (missing s)).
           i < n \<and> i \<in> set (take (qpSIdx s) (qpSIdxs E)) \<and> out s ! i = r ! i)"

text \<open>
  For the runs in which every read is checked: the xmin-cursor and the query cursor are
  at positions of their permutations and \<^verbatim>\<open>mn\<close>, \<^verbatim>\<open>qp\<close> are the keys there; and every
  xmin is at most the x of some uv vertex, which are the keys of the query permutation.
\<close>

definition live_ok :: "sweep_env \<Rightarrow> sweep_state \<Rightarrow> bool" where
  "live_ok E s \<longleftrightarrow>
     mnSIdx s < length (mnSIdxs E) \<and> mn s = xmns E ! (mnSIdxs E ! mnSIdx s)
     \<and> cursor_ok E s \<and> qp s = qpx E ! qpIdx s"

definition checked_env :: "sweep_env \<Rightarrow> bool" where
  "checked_env E \<longleftrightarrow>
     sentinel_read E = None \<and> length (mxSIdxs E) \<le> SIZE_MAX
     \<and> numTris E = length (mnSIdxs E)
     \<and> mnSIdxs E = argsort (xmns E) \<and> qpSIdxs E = argsort (qpx E)
     \<and> (\<forall>t<length (xmns E). \<exists>j<length (qpx E). xmns E ! t \<le> qpx E ! j)"

section \<open>Properties of argsort\<close>

lemma insert_sorted_insort_key:
  "insert_sorted (\<lambda>a b. f a < f b) x ys = insort_key f x ys"
  for f :: "'a \<Rightarrow> 'k::linorder"
  by (induction ys) (auto simp: not_less)

lemma stable_sort_sort_key:
  "stable_sort (\<lambda>a b. f a < f b) xs = sort_key f xs"
  for f :: "'a \<Rightarrow> 'k::linorder"
  by (induction xs) (simp_all add: insert_sorted_insort_key)

lemma argsort_sort_key: "argsort v = sort_key (\<lambda>i. v ! i) [0..<length v]"
  unfolding argsort_def iota_def by (rule stable_sort_sort_key)

lemma length_argsort: "length (argsort v) = length v"
  by (simp add: argsort_sort_key)

lemma mset_argsort: "mset (argsort v) = mset [0..<length v]"
  by (simp add: argsort_sort_key)

lemma set_argsort: "set (argsort v) = {0..<length v}"
  by (simp add: argsort_sort_key)

lemma distinct_argsort: "distinct (argsort v)"
  by (simp add: argsort_sort_key)

lemma sorted_argsort: "sorted (map (\<lambda>i. v ! i) (argsort v))"
  by (simp add: argsort_sort_key)

lemma argsort_nth_less: "k < length v \<Longrightarrow> argsort v ! k < length v"
proof -
  assume "k < length v"
  then have "argsort v ! k \<in> set (argsort v)"
    by (simp add: length_argsort)
  then show ?thesis by (simp add: set_argsort)
qed

lemma filter_sorted_wrt_nth:
  assumes "sorted_wrt R (filter P xs)" and "a < b" and "b < length xs"
    and "P (xs ! a)" and "P (xs ! b)"
  shows "R (xs ! a) (xs ! b)"
proof -
  have split: "xs = take b xs @ xs ! b # drop (Suc b) xs"
    using assms(3) by (simp add: id_take_nth_drop)
  have "xs ! a \<in> set (filter P (take b xs))"
    using assms(2,3,4) by (auto simp: in_set_conv_nth intro!: exI[of _ a])
  moreover have "sorted_wrt R (filter P (take b xs) @ xs ! b # filter P (drop (Suc b) xs))"
    using assms(1,5) by (subst (asm) split) simp
  ultimately show ?thesis
    by (simp add: sorted_wrt_append)
qed

lemma argsort_stable:
  assumes "a < b" and "b < length v"
    and "v ! (argsort v ! a) = v ! (argsort v ! b)"
  shows "argsort v ! a < argsort v ! b"
proof -
  let ?k = "v ! (argsort v ! a)"
  have "filter (\<lambda>i. v ! i = ?k) (argsort v) = filter (\<lambda>i. v ! i = ?k) [0..<length v]"
    by (simp add: argsort_sort_key sort_key_stable)
  moreover have "sorted_wrt (<) (filter (\<lambda>i. v ! i = ?k) [0..<length v])"
    by (rule sorted_wrt_filter) (simp add: sorted_wrt_upt)
  ultimately have s: "sorted_wrt (<) (filter (\<lambda>i. v ! i = ?k) (argsort v))"
    by simp
  have b: "b < length (argsort v)"
    using assms(2) by (simp only: length_argsort)
  have kb: "v ! (argsort v ! b) = ?k"
    using assms(3) by (rule sym)
  show ?thesis
    by (rule filter_sorted_wrt_nth [where P = "\<lambda>i. v ! i = ?k" and xs = "argsort v",
          OF s assms(1) b refl kb])
qed

text \<open>
  C8. For every sequence of keys of a linear order, \<open>argsort\<close> returns a list as long as
  the input, which is a permutation of the positions \<open>0..n-1\<close>, under which the keys are
  non-decreasing, and in which positions with equal keys come in their original order.
\<close>

theorem C8_argsort_contract:
  "length (argsort v) = length v
   \<and> mset (argsort v) = mset [0..<length v]
   \<and> sorted (map (\<lambda>i. v ! i) (argsort v))
   \<and> (\<forall>a b. a < b \<and> b < length v \<and> v ! (argsort v ! a) = v ! (argsort v ! b)
        \<longrightarrow> argsort v ! a < argsort v ! b)"
  using length_argsort mset_argsort sorted_argsort argsort_stable by blast

theorem C8_argsort_contract_witness:
  "argsort [2, 1, 2, 1 :: int] = [1, 3, 0, 2]
   \<and> (0::nat) < 1 \<and> (1::nat) < length [2, 1, 2, 1 :: int]
   \<and> [2, 1, 2, 1 :: int] ! (argsort [2, 1, 2, 1 :: int] ! 0)
       = [2, 1, 2, 1 :: int] ! (argsort [2, 1, 2, 1 :: int] ! 1)
   \<and> argsort [2, 1, 2, 1 :: int] ! 0 < argsort [2, 1, 2, 1 :: int] ! 1"
proof -
  have e: "argsort [2, 1, 2, 1 :: int] = [1, 3, 0, 2]"
    by (simp add: argsort_def iota_def upt_rec)
  have h: "(0::nat) < 1 \<and> (1::nat) < length [2, 1, 2, 1 :: int]
      \<and> [2, 1, 2, 1 :: int] ! (argsort [2, 1, 2, 1 :: int] ! 0)
          = [2, 1, 2, 1 :: int] ! (argsort [2, 1, 2, 1 :: int] ! 1)"
    by (simp add: e)
  from C8_argsort_contract [of "[2, 1, 2, 1 :: int]"] h
  have "argsort [2, 1, 2, 1 :: int] ! 0 < argsort [2, 1, 2, 1 :: int] ! 1"
    by blast
  with e h show ?thesis by blast
qed

section \<open>Properties of the fallback resolver\<close>

lemma and_then_simps [simp]:
  "and_then (Inl e) f = Inl e" "and_then (Inr x) f = f x"
  by (simp_all add: and_then_def)

lemma and_then_Inr_iff:
  "and_then m f = Inr y \<longleftrightarrow> (\<exists>x. m = Inr x \<and> f x = Inr y)"
  by (cases m) simp_all

lemma vec_at_Inr_iff: "vec_at l xs i = Inr x \<longleftrightarrow> i < length xs \<and> x = xs ! i"
  by (auto simp: vec_at_def)

lemma scan_edges_range:
  "scan_edges a d dr2 pt is (mi, mv) = Inr e \<Longrightarrow> e = mi \<or> e \<in> set is"
  by (induction "is" arbitrary: mi mv)
     (auto simp: and_then_Inr_iff split: option.splits if_splits)

lemma closestBruteForceEdge_range:
  assumes "closestBruteForceEdge a d dr2 pt = Inr e" and "a \<noteq> []"
  shows "e < length a"
  using scan_edges_range [OF assms(1) [unfolded closestBruteForceEdge_def]] assms(2)
  by auto

lemma build_borders_length:
  "build_borders us bs (st, bd, bl) = Inr (st', bd', bl') \<Longrightarrow>
     length st' = length st + length bs"
  by (induction bs arbitrary: st bd bl)
     (auto simp: and_then_Inr_iff Let_def)

lemma assign_missing_length:
  "assign_missing us st bd bl b2t ms t = Inr res \<Longrightarrow> length res = length t"
  by (induction ms arbitrary: t) (auto simp: and_then_Inr_iff split: if_splits)

lemma assign_missing_frame:
  "assign_missing us st bd bl b2t ms t = Inr res \<Longrightarrow> i \<notin> set ms \<Longrightarrow> res ! i = t ! i"
  by (induction ms arbitrary: t) (auto simp: and_then_Inr_iff split: if_splits)

lemma assign_missing_range:
  "assign_missing us st bd bl b2t ms t = Inr res \<Longrightarrow> st \<noteq> [] \<Longrightarrow> m \<in> set ms \<Longrightarrow>
     \<exists>e < length st. res ! m = b2t ! e"
proof (induction ms arbitrary: t)
  case Nil
  then show ?case by simp
next
  case (Cons a ms)
  from Cons.prems(1) obtain e where
    e: "closestBruteForceEdge st bd bl (us ! a) = Inr e" and
    a: "a < length t" and
    r: "assign_missing us st bd bl b2t ms (t[a := b2t ! e]) = Inr res"
    by (auto simp: and_then_Inr_iff vec_at_Inr_iff split: if_splits)
  show ?case
  proof (cases "m \<in> set ms")
    case True
    then show ?thesis using Cons.IH [OF r Cons.prems(2)] by simp
  next
    case False
    with Cons.prems(3) have "m = a" by simp
    with False assign_missing_frame [OF r] a have "res ! m = b2t ! e" by simp
    with closestBruteForceEdge_range [OF e Cons.prems(2)] show ?thesis by blast
  qed
qed

lemma scan_edges_fault:
  "scan_edges a d dr2 pt is (mi, mv) = Inl (OutOfRange l) \<Longrightarrow> l \<in> {163, 164, 168}"
proof (induction "is" arbitrary: mi mv)
  case Nil
  then show ?case by simp
next
  case (Cons i "is")
  show ?case
  proof (cases "i < length a \<and> i < length d \<and> i < length dr2")
    case True
    with Cons.prems show ?thesis
      by (auto simp: vec_at_def split: option.splits if_splits dest: Cons.IH)
  next
    case False
    with Cons.prems show ?thesis
      by (auto simp: vec_at_def split: if_splits)
  qed
qed

lemma assign_missing_no_222:
  "st \<noteq> [] \<Longrightarrow> length st \<le> length b2t \<Longrightarrow>
   assign_missing us st bd bl b2t ms t \<noteq> Inl (OutOfRange 222)"
proof (induction ms arbitrary: t)
  case Nil
  then show ?case by simp
next
  case (Cons a ms)
  show ?case
  proof (cases "vec_at 220 us a")
    case (Inl x)
    then show ?thesis by (auto simp: vec_at_def split: if_splits)
  next
    case mp: (Inr mp)
    show ?thesis
    proof (cases "closestBruteForceEdge st bd bl mp")
      case (Inl x)
      obtain l where x: "x = OutOfRange l" by (cases x)
      with Inl scan_edges_fault [of st bd bl mp "[0..<length st]" 0 DBL_MAX l]
      have "l \<noteq> 222" by (auto simp: closestBruteForceEdge_def)
      with Inl mp x show ?thesis by simp
    next
      case (Inr e)
      with closestBruteForceEdge_range Cons.prems have "e < length b2t"
        by fastforce
      with Inr mp Cons.IH [OF Cons.prems] show ?thesis
        by (simp add: vec_at_def)
    qed
  qed
qed

lemma build_borders_fault:
  "build_borders us bs acc = Inl (OutOfRange l) \<Longrightarrow> l \<in> {210, 211}"
proof (induction bs arbitrary: acc)
  case Nil
  then show ?case by simp
next
  case (Cons b bs)
  obtain st bd bl where acc: "acc = (st, bd, bl)" by (cases acc)
  show ?case
  proof (cases "fst b < length us \<and> snd b < length us")
    case True
    with Cons.prems acc show ?thesis
      by (auto simp: vec_at_def Let_def dest: Cons.IH)
  next
    case False
    with Cons.prems acc show ?thesis
      by (auto simp: vec_at_def split: if_splits)
  qed
qed

text \<open>
  When every index handed to \<^verbatim>\<open>handleMissing\<close> is in range, it returns: no read faults.
\<close>

lemma build_borders_returns:
  assumes "\<forall>b\<in>set bs. fst b < length us \<and> snd b < length us"
  shows "\<exists>st' bd' bl'. build_borders us bs (st, bd, bl) = Inr (st', bd', bl')
     \<and> length st' = length st + length bs \<and> length bd' = length bd + length bs
     \<and> length bl' = length bl + length bs"
  using assms
proof (induction bs arbitrary: st bd bl)
  case Nil
  then show ?case by simp
next
  case (Cons b bs)
  from Cons.prems have b: "fst b < length us" "snd b < length us"
    and r: "\<forall>b\<in>set bs. fst b < length us \<and> snd b < length us"
    by simp_all
  let ?d = "(fst (us ! snd b) - fst (us ! fst b), snd (us ! snd b) - snd (us ! fst b))"
  let ?l = "(snd ?d - fst ?d) * (snd ?d - fst ?d)"
  from Cons.IH [OF r, of "st @ [us ! fst b]" "bd @ [?d]" "bl @ [?l]"] b show ?case
    by (simp add: vec_at_def Let_def)
qed

lemma scan_edges_returns:
  assumes "\<forall>i\<in>set is. i < length a \<and> i < length d \<and> i < length dr2"
  shows "\<exists>e. scan_edges a d dr2 pt is (mi, mv) = Inr e"
  using assms
proof (induction "is" arbitrary: mi mv)
  case Nil
  then show ?case by simp
next
  case (Cons i "is")
  then show ?case
    by (simp add: vec_at_def split: option.splits)
qed

lemma assign_missing_returns:
  assumes "st \<noteq> []" and "length bd = length st" and "length bl = length st"
    and "length st \<le> length b2t"
    and "\<forall>m\<in>set ms. m < length us \<and> m < length t"
  shows "\<exists>res. assign_missing us st bd bl b2t ms t = Inr res"
  using assms(5)
proof (induction ms arbitrary: t)
  case Nil
  then show ?case by simp
next
  case (Cons m ms)
  from scan_edges_returns [of "[0..<length st]" st bd bl "us ! m" 0 DBL_MAX] assms(2,3)
  obtain e where e: "closestBruteForceEdge st bd bl (us ! m) = Inr e"
    by (auto simp: closestBruteForceEdge_def)
  from closestBruteForceEdge_range [OF e assms(1)] assms(4) have "e < length b2t"
    by simp
  moreover from Cons.prems have "\<forall>m'\<in>set ms. m' < length us \<and> m' < length (t[m := b2t ! e])"
    by simp
  from Cons.IH [OF this] obtain res where
    "assign_missing us st bd bl b2t ms (t[m := b2t ! e]) = Inr res" by blast
  ultimately show ?case
    using Cons.prems e by (simp add: vec_at_def)
qed

lemma handleMissing_returns:
  assumes "borders \<noteq> []" and "length borderToTri = length borders"
    and "\<forall>b\<in>set borders. fst b < length us \<and> snd b < length us"
    and "\<forall>m\<in>set miss. m < length us \<and> m < length triIdxs"
  shows "\<exists>res. handleMissing us borders miss borderToTri triIdxs = Inr res"
proof -
  from build_borders_returns [OF assms(3), of "[]" "[]" "[]"] obtain st bd bl where
    b: "build_borders us borders ([], [], []) = Inr (st, bd, bl)"
    and l: "length st = length borders" "length bd = length borders"
      "length bl = length borders"
    by auto
  from l assms(1,2) have "st \<noteq> []" "length bd = length st" "length bl = length st"
    "length st \<le> length borderToTri"
    by auto
  from assign_missing_returns [OF this assms(4)] b show ?thesis
    by (simp add: handleMissing_def)
qed

text \<open>
  C7. When the list of boundary edges is not empty and \<^verbatim>\<open>borderToTri\<close> has one entry per
  boundary edge, \<^verbatim>\<open>handleMissing\<close> never reads \<^verbatim>\<open>borderToTri\<close> out of range (line 222),
  and in the vector it returns the entry of every missing index is \<^verbatim>\<open>borderToTri[e]\<close> for
  an edge index \<open>e\<close> below the number of boundary edges.
\<close>

theorem C7_fallback_index_from_borderToTri:
  assumes "borders \<noteq> []" and "length borderToTri = length borders"
  shows "handleMissing us borders miss borderToTri triIdxs \<noteq> Inl (OutOfRange 222)
       \<and> (\<forall>res. handleMissing us borders miss borderToTri triIdxs = Inr res \<longrightarrow>
             (\<forall>m\<in>set miss. \<exists>e<length borders. res ! m = borderToTri ! e))"
proof (cases "build_borders us borders ([], [], [])")
  case (Inl x)
  obtain l where "x = OutOfRange l" by (cases x)
  with Inl build_borders_fault [of us borders "([], [], [])" l] show ?thesis
    by (auto simp: handleMissing_def)
next
  case (Inr r)
  obtain st bd bl where r: "r = (st, bd, bl)" by (cases r)
  from Inr r have len: "length st = length borders"
    using build_borders_length [of us borders "[]" "[]" "[]" st bd bl] by simp
  with assms have ne: "st \<noteq> []" and le: "length st \<le> length borderToTri"
    by auto
  have hm: "handleMissing us borders miss borderToTri triIdxs
      = assign_missing us st bd bl borderToTri miss triIdxs"
    using Inr r by (simp add: handleMissing_def)
  show ?thesis
    unfolding hm
    using assign_missing_no_222 [OF ne le] assign_missing_range [OF _ ne] len
    by metis
qed

theorem C7_fallback_index_from_borderToTri_witness:
  "[(0, 1), (2, 3)] \<noteq> ([] :: edge_t list)
   \<and> length [10, 11 :: nat] = length [(0, 1), (2, 3) :: edge_t]
   \<and> handleMissing [(0, 0), (10, 20), (0, -10), (20, -10), (4, 3)] [(0, 1), (2, 3)] [4]
        [10, 11] [0, 0, 0, 0, 0] = Inr [0, 0, 0, 0, 11]
   \<and> (\<exists>e<length [(0, 1), (2, 3) :: edge_t]. [0, 0, 0, 0, 11 :: nat] ! 4 = [10, 11] ! e)"
proof -
  have h1: "[(0, 1), (2, 3)] \<noteq> ([] :: edge_t list)" by simp
  have h2: "length [10, 11 :: nat] = length [(0, 1), (2, 3) :: edge_t]" by simp
  have r: "handleMissing [(0, 0), (10, 20), (0, -10), (20, -10), (4, 3)] [(0, 1), (2, 3)] [4]
        [10, 11] [0, 0, 0, 0, 0] = Inr [0, 0, 0, 0, 11]"
    by (simp add: handleMissing_def closestBruteForceEdge_def vec_at_def edge_l2_def
        fdiv_def DBL_MAX_def upt_rec Let_def)
  from C7_fallback_index_from_borderToTri [OF h1 h2,
      of "[(0, 0), (10, 20), (0, -10), (20, -10), (4, 3)]" "[4]" "[0, 0, 0, 0, 0]"] r
  have "\<exists>e<length [(0, 1), (2, 3) :: edge_t]. [0, 0, 0, 0, 11 :: nat] ! 4 = [10, 11] ! e"
    by simp
  with h1 h2 r show ?thesis by blast
qed

text \<open>
  C3 (the code departs from it). The uv array holds the edge from \<open>(0,0)\<close> to \<open>(10,20)\<close>,
  the edge from \<open>(0,-10)\<close> to \<open>(20,-10)\<close> and the missing point \<open>(4,3)\<close>. Line 214 stores
  \<open>(dy - dx)^2\<close>, here \<open>100\<close> and \<open>400\<close>, where the squared lengths are \<open>500\<close> and \<open>400\<close>.
  The clamped-projection distance of the specification is \<open>5\<close> to the first edge and
  \<open>169\<close> to the second, and \<^verbatim>\<open>handleMissing\<close> assigns the triangle of the second edge.
\<close>

theorem C3_fallback_picks_farther_edge:
  "build_borders [(0, 0), (10, 20), (0, -10), (20, -10), (4, 3)] [(0, 1), (2, 3)] ([], [], [])
     = Inr ([(0, 0), (0, -10)], [(10, 20), (20, 0)], [100, 400])
   \<and> closestBruteForceEdge [(0, 0), (0, -10)] [(10, 20), (20, 0)] [100, 400] (4, 3) = Inr 1
   \<and> handleMissing [(0, 0), (10, 20), (0, -10), (20, -10), (4, 3)] [(0, 1), (2, 3)] [4]
        [10, 11] [0, 0, 0, 0, 0] = Inr [0, 0, 0, 0, 11]
   \<and> spec_seg_dist2 (4, 3) (0, 0) (10, 20) = 5
   \<and> spec_seg_dist2 (4, 3) (0, -10) (20, -10) = 169"
  by (simp add: handleMissing_def closestBruteForceEdge_def vec_at_def edge_l2_def
      fdiv_def DBL_MAX_def upt_rec Let_def spec_seg_dist2_def)

section \<open>Properties of the sweep\<close>

lemmas run_simps = sweep_def sweep_init_def sweep_step_def activate_def test_def deactivate_def
  read_sentinel_def tri_box_def vec_at_def argsort_def iota_def resize_def closed_tri_def
  Let_def upt_rec SIZE_MAX_def sweep_loop.simps sweep_after_def

lemma sweep_init_active_ok:
  "sweep_init pit ord sent qPoints0 uvs0 tris0 out0 missing0 barys0 = Inr (E, s0)
   \<Longrightarrow> active_ok E s0"
  by (auto simp: sweep_init_def Let_def and_then_Inr_iff active_ok_def)

lemma activate_active_ok:
  assumes "active_ok E s" and "activate E s = Inr c"
  shows "active_ok E (ctl_state c)"
  using assms
  by (auto simp: activate_def Let_def and_then_Inr_iff vec_at_Inr_iff active_ok_def
      nth_list_update split: if_splits)

lemma deactivate_active_ok:
  assumes "active_ok E s" and "deactivate E s = Inr c"
  shows "active_ok E (ctl_state c)"
  using assms
  by (auto simp: deactivate_def Let_def and_then_Inr_iff vec_at_Inr_iff active_ok_def
      nth_list_update distinct_removeAll split: if_splits)

lemma test_active_ok:
  assumes "active_ok E s" and "test E s = Inr c"
  shows "active_ok E (ctl_state c)"
  using assms
  by (auto simp: test_def Let_def and_then_Inr_iff vec_at_Inr_iff active_ok_def
      split: if_splits option.splits)

lemma sweep_step_active_ok:
  "active_ok E s \<Longrightarrow> sweep_step E s = Inr c \<Longrightarrow> active_ok E (ctl_state c)"
  unfolding sweep_step_def
  by (auto split: if_splits
      intro: activate_active_ok test_active_ok deactivate_active_ok)

lemma sweep_iter_active_ok:
  "active_ok E s \<Longrightarrow> sweep_iter E n s = Inr c \<Longrightarrow> active_ok E (ctl_state c)"
proof (induction n arbitrary: s)
  case 0
  then show ?case by auto
next
  case (Suc n)
  show ?case
  proof (cases "sweep_step E s")
    case (Inl e)
    with Suc.prems show ?thesis by simp
  next
    case (Inr c1)
    show ?thesis
    proof (cases c1)
      case (Break s1)
      with Inr Suc.prems sweep_step_active_ok [OF Suc.prems(1) Inr] show ?thesis
        by simp
    next
      case (Next s1)
      with Inr Suc.prems sweep_step_active_ok [OF Suc.prems(1) Inr] show ?thesis
        by (auto intro: Suc.IH)
    qed
  qed
qed


lemma length_resize: "length (resize n xs) = n"
  by (simp add: resize_def)

lemma resize_nth: "i < n \<Longrightarrow> resize n xs ! i = (if i < length xs then xs ! i else 0)"
  by (simp add: resize_def nth_append)

lemma distinct_nth_notin_take:
  "distinct xs \<Longrightarrow> k < length xs \<Longrightarrow> xs ! k \<notin> set (take k xs)"
  by (auto simp: in_set_conv_nth nth_eq_iff_index_eq)

lemma find_tri_accepts:
  "find_tri E q ts = Inr (Some t) \<Longrightarrow> tri_accepts E q t"
  by (induction ts)
     (auto simp: and_then_Inr_iff vec_at_Inr_iff tri_accepts_def split: if_splits)

lemma sweep_init_env:
  assumes "sweep_init pit ord sent qPoints0 uvs0 tris0 out0 missing0 barys0 = Inr (E, s0)"
  shows "qPoints E = qPoints0" and "distinct (qpSIdxs E)" and "qpx E = map fst uvs0"
    and "qpSIdxs E = argsort (qpx E)"
  using assms
  by (auto simp: sweep_init_def Let_def and_then_Inr_iff distinct_argsort)

lemma sweep_init_data_ok:
  assumes "sweep_init pit ord sent qPoints0 uvs0 tris0 out0 missing0 barys0 = Inr (E, s0)"
  shows "data_ok E (length qPoints0) (resize (length qPoints0) out0)
           (resize (length qPoints0) missing0) s0"
    and "cursor_ok E s0"
proof -
  from assms have f: "out s0 = resize (length qPoints0) out0"
    "missing s0 = resize (length qPoints0) missing0" "qpSIdx s0 = 0"
    "qpSIdxs E \<noteq> []" "qpIdx s0 = qpSIdxs E ! 0"
    by (auto simp: sweep_init_def Let_def and_then_Inr_iff vec_at_Inr_iff)
  show "data_ok E (length qPoints0) (resize (length qPoints0) out0)
           (resize (length qPoints0) missing0) s0"
    by (simp add: data_ok_def f length_resize)
  show "cursor_ok E s0"
    by (simp add: cursor_ok_def f)
qed

lemma activate_frame:
  assumes "activate E s = Inr c"
  shows "out (ctl_state c) = out s" and "missing (ctl_state c) = missing s"
    and "qpSIdx (ctl_state c) = qpSIdx s" and "qpIdx (ctl_state c) = qpIdx s"
    and "barys (ctl_state c) = barys s"
  using assms
  by (auto simp: activate_def Let_def and_then_Inr_iff vec_at_Inr_iff split: if_splits)

lemma deactivate_frame:
  assumes "deactivate E s = Inr c"
  shows "out (ctl_state c) = out s" and "missing (ctl_state c) = missing s"
    and "qpSIdx (ctl_state c) = qpSIdx s" and "qpIdx (ctl_state c) = qpIdx s"
    and "barys (ctl_state c) = barys s"
  using assms
  by (auto simp: deactivate_def Let_def and_then_Inr_iff vec_at_Inr_iff split: if_splits)

lemma data_ok_frame:
  assumes "out s1 = out s" and "missing s1 = missing s" and "qpSIdx s1 = qpSIdx s"
    and "qpIdx s1 = qpIdx s"
  shows "data_ok E n r m s1 = data_ok E n r m s" and "cursor_ok E s1 = cursor_ok E s"
  by (simp_all add: data_ok_def cursor_ok_def assms)


lemma test_cases:
  assumes "test E s = Inr c"
  shows "qpIdx s < length (qPoints E)
    \<and> ((\<exists>t. find_tri E (qPoints E ! qpIdx s) (iter_order E (atSet s)) = Inr (Some t)
            \<and> qpIdx s < length (out s)
            \<and> out (ctl_state c) = (out s)[qpIdx s := t]
            \<and> missing (ctl_state c) = missing s)
       \<or> (find_tri E (qPoints E ! qpIdx s) (iter_order E (atSet s)) = Inr None
            \<and> out (ctl_state c) = out s
            \<and> missing (ctl_state c) = missing s @ [qpIdx s]))"
  using assms
  by (auto simp: test_def Let_def and_then_Inr_iff vec_at_Inr_iff
      split: if_splits option.splits)

lemma test_cursor:
  assumes "test E s = Inr c"
  shows "qpSIdx (ctl_state c) = Suc (qpSIdx s)"
    and "barys (ctl_state c) = barys s"
    and "c = Next s1 \<Longrightarrow> cursor_ok E s1"
    and "activeTris (ctl_state c) = activeTris s"
    and "atSet (ctl_state c) = atSet s"
  using assms
  by (auto simp: test_def Let_def and_then_Inr_iff vec_at_Inr_iff cursor_ok_def
      split: if_splits option.splits)


lemma test_data_ok:
  assumes d: "data_ok E n r m s" and cur: "cursor_ok E s"
    and dist: "distinct (qpSIdxs E)" and len: "length (qPoints E) = n"
    and t: "test E s = Inr c"
  shows "data_ok E n r m (ctl_state c)"
proof -
  let ?k = "qpSIdx s" and ?i = "qpIdx s" and ?s1 = "ctl_state c"
  let ?V = "set (take ?k (qpSIdxs E))"
  from cur have k: "?k < length (qpSIdxs E)" and i: "?i = qpSIdxs E ! ?k"
    by (simp_all add: cursor_ok_def)
  have fresh: "?i \<notin> ?V"
    using distinct_nth_notin_take [OF dist k] i by simp
  have V1: "set (take (qpSIdx ?s1) (qpSIdxs E)) = insert ?i ?V"
    using test_cursor(1) [OF t] k i by (simp add: take_Suc_conv_app_nth)
  from test_cases [OF t] len have ilt: "?i < n" by simp
  from d have lo: "length (out s) = n" and tm: "take n (missing s) = m"
    and lm: "length m = n"
    and unv: "\<forall>j<n. j \<notin> ?V \<longrightarrow> out s ! j = r ! j"
    and wr: "\<forall>j<n. out s ! j \<noteq> r ! j \<longrightarrow> tri_accepts E (qPoints E ! j) (out s ! j)"
    and ms: "\<forall>j\<in>set (drop n (missing s)). j < n \<and> j \<in> ?V \<and> out s ! j = r ! j"
    by (simp_all add: data_ok_def)
  from tm lm have nle: "n \<le> length (missing s)"
    by (metis length_take min.cobounded1 min.commute)
  from test_cases [OF t] consider
    (hit) t where "find_tri E (qPoints E ! ?i) (iter_order E (atSet s)) = Inr (Some t)"
      "out ?s1 = (out s)[?i := t]" "missing ?s1 = missing s"
    | (miss) "out ?s1 = out s" "missing ?s1 = missing s @ [?i]"
    by blast
  then show ?thesis
  proof cases
    case hit
    from find_tri_accepts [OF hit(1)] have acc: "tri_accepts E (qPoints E ! ?i) t" .
    have "\<forall>j\<in>set (drop n (missing s)). j \<noteq> ?i"
      using ms fresh by blast
    with lo tm lm unv wr ms acc ilt show ?thesis
      unfolding data_ok_def V1 hit(2,3)
      by (auto simp: nth_list_update)
  next
    case miss
    have "out s ! ?i = r ! ?i"
      using unv ilt fresh by blast
    with lo tm lm unv wr ms ilt nle show ?thesis
      unfolding data_ok_def V1 miss
      by auto
  qed
qed

lemma sweep_step_data_ok:
  assumes "data_ok E n r m s" and "cursor_ok E s"
    and "distinct (qpSIdxs E)" and "length (qPoints E) = n"
    and "sweep_step E s = Inr c"
  shows "data_ok E n r m (ctl_state c)" and "c = Next s1 \<Longrightarrow> cursor_ok E s1"
proof -
  consider (a) "activate E s = Inr c" | (t) "test E s = Inr c" | (d) "deactivate E s = Inr c"
    using assms(5) by (auto simp: sweep_step_def split: if_splits)
  then have "data_ok E n r m (ctl_state c) \<and> (c = Next s1 \<longrightarrow> cursor_ok E s1)"
  proof cases
    case a
    note f = activate_frame [OF a]
    have "data_ok E n r m (ctl_state c)" "cursor_ok E (ctl_state c)"
      using assms(1,2) data_ok_frame [OF f(1-4)] by simp_all
    then show ?thesis by auto
  next
    case t
    from test_data_ok [OF assms(1-4) t] test_cursor(3) [OF t] show ?thesis by blast
  next
    case d
    note f = deactivate_frame [OF d]
    have "data_ok E n r m (ctl_state c)" "cursor_ok E (ctl_state c)"
      using assms(1,2) data_ok_frame [OF f(1-4)] by simp_all
    then show ?thesis by auto
  qed
  then show "data_ok E n r m (ctl_state c)" and "c = Next s1 \<Longrightarrow> cursor_ok E s1"
    by simp_all
qed

lemma sweep_iter_data_ok:
  assumes "distinct (qpSIdxs E)" and "length (qPoints E) = n"
  shows "data_ok E n r m s \<Longrightarrow> cursor_ok E s \<Longrightarrow> sweep_iter E k s = Inr c
    \<Longrightarrow> data_ok E n r m (ctl_state c)"
proof (induction k arbitrary: s)
  case 0
  then show ?case by auto
next
  case (Suc k)
  show ?case
  proof (cases "sweep_step E s")
    case (Inl e)
    with Suc.prems show ?thesis by simp
  next
    case (Inr c1)
    note st = sweep_step_data_ok [OF Suc.prems(1,2) assms Inr]
    show ?thesis
    proof (cases c1)
      case (Break s1)
      with Inr Suc.prems st(1) show ?thesis by simp
    next
      case (Next s1)
      with Inr Suc.prems(3) have "sweep_iter E k s1 = Inr c" by simp
      moreover from st(1) Next have "data_ok E n r m s1" by simp
      moreover from st(2) [OF Next] have "cursor_ok E s1" .
      ultimately show ?thesis by (rule Suc.IH [rotated 2])
    qed
  qed
qed

lemma sweep_loop_iter:
  "sweep_loop E s = Inr s' \<Longrightarrow> \<exists>n. sweep_iter E n s = Inr (Break s')"
proof (induction E s rule: sweep_loop.induct)
  case (1 E s)
  show ?case
  proof (cases "sweep_step E s")
    case (Inl e)
    with "1.prems" show ?thesis by (subst (asm) sweep_loop.simps) simp
  next
    case (Inr c1)
    show ?thesis
    proof (cases c1)
      case (Break s1)
      with Inr "1.prems" have "sweep_iter E (Suc 0) s = Inr (Break s')"
        by (subst (asm) sweep_loop.simps) simp
      then show ?thesis by blast
    next
      case (Next s1)
      with Inr "1.prems" have "sweep_loop E s1 = Inr s'"
        by (subst (asm) sweep_loop.simps) simp
      from "1.IH" [OF Inr Next this] obtain n where "sweep_iter E n s1 = Inr (Break s')"
        by blast
      with Inr Next have "sweep_iter E (Suc n) s = Inr (Break s')" by simp
      then show ?thesis by blast
    qed
  qed
qed

text \<open>
  C9. At the head of every pass of the sweep loop, and when the loop is left, a triangle
  index is in the active set exactly when its presence flag is set, no index occurs twice
  in the active set, and no triangle whose skip flag is set is in it.
\<close>

theorem C9_active_set_agrees_with_flags:
  assumes "sweep_init pit ord sent qPoints0 uvs0 tris0 out0 missing0 barys0 = Inr (E, s0)"
    and "sweep_iter E n s0 = Inr c"
  shows "(\<forall>t<numTris E. t \<in> set (atSet (ctl_state c)) \<longleftrightarrow> activeTris (ctl_state c) ! t)
       \<and> distinct (atSet (ctl_state c))
       \<and> (\<forall>t\<in>set (atSet (ctl_state c)). t < numTris E \<and> \<not> skip E ! t)"
  using sweep_iter_active_ok [OF sweep_init_active_ok [OF assms(1)] assms(2)]
  by (simp add: active_ok_def)

theorem C9_active_set_agrees_with_flags_witness:
  "\<exists>E s0 c.
     sweep_init closed_tri id None [(3/4, 3/4)] [(0, 0), (1, 0), (0, 1), (1, 1)]
       [0, 1, 2, 1, 3, 2] [] [] [] = Inr (E, s0)
     \<and> sweep_iter E 1 s0 = Inr c
     \<and> atSet (ctl_state c) = [0] \<and> activeTris (ctl_state c) = [True, False]
     \<and> numTris E = 2
     \<and> (\<forall>t<numTris E. t \<in> set (atSet (ctl_state c)) \<longleftrightarrow> activeTris (ctl_state c) ! t)
     \<and> distinct (atSet (ctl_state c))
     \<and> (\<forall>t\<in>set (atSet (ctl_state c)). t < numTris E \<and> \<not> skip E ! t)"
proof -
  have "\<exists>E s0 c.
     sweep_init closed_tri id None [(3/4, 3/4)] [(0, 0), (1, 0), (0, 1), (1, 1)]
       [0, 1, 2, 1, 3, 2] [] [] [] = Inr (E, s0)
     \<and> sweep_iter E 1 s0 = Inr c
     \<and> atSet (ctl_state c) = [0] \<and> activeTris (ctl_state c) = [True, False]
     \<and> numTris E = 2"
    by (simp add: run_simps numeral_2_eq_2)
  then obtain E s0 c where
    i: "sweep_init closed_tri id None [(3/4, 3/4)] [(0, 0), (1, 0), (0, 1), (1, 1)]
       [0, 1, 2, 1, 3, 2] [] [] [] = Inr (E, s0)"
    and r: "sweep_iter E 1 s0 = Inr c"
    and v: "atSet (ctl_state c) = [0]" "activeTris (ctl_state c) = [True, False]"
      "numTris E = 2"
    by blast
  from C9_active_set_agrees_with_flags [OF i r] i r v show ?thesis
    by blast
qed

lemma sweep_init_data_ok':
  assumes i: "sweep_init pit ord sent qPoints0 uvs0 tris0 out0 missing0 barys0 = Inr (E, s0)"
    and r: "sweep_iter E n s0 = Inr c"
  shows "data_ok E (length qPoints0) (resize (length qPoints0) out0)
           (resize (length qPoints0) missing0) (ctl_state c)"
proof -
  have l: "length (qPoints E) = length qPoints0"
    using sweep_init_env(1) [OF i] by simp
  show ?thesis
    by (rule sweep_iter_data_ok [OF sweep_init_env(2) [OF i] l sweep_init_data_ok [OF i] r])
qed

text \<open>
  C10, as amended. At the head of every pass of the loop and when the loop is left:
  \<^verbatim>\<open>out\<close> has one entry per query point; an entry that differs from what \<^verbatim>\<open>resize\<close> left
  there (the caller's value below the incoming length of \<^verbatim>\<open>out\<close>, \<open>0\<close> at the positions
  \<^verbatim>\<open>resize\<close> added) holds a triangle that \<open>pointInTri\<close> accepted for that query point;
  the first entries of \<^verbatim>\<open>missing\<close> are those \<^verbatim>\<open>resize\<close> left; and for every index the loop
  appended to \<^verbatim>\<open>missing\<close> the entry of \<^verbatim>\<open>out\<close> is still what \<^verbatim>\<open>resize\<close> left there, so it
  reads \<open>0\<close> when \<^verbatim>\<open>out\<close> was passed in empty.
\<close>

theorem C10_unwritten_entries_keep_resize_value:
  assumes "sweep_init pit ord sent qPoints0 uvs0 tris0 out0 missing0 barys0 = Inr (E, s0)"
    and "sweep_iter E n s0 = Inr c"
  shows "length (out (ctl_state c)) = length qPoints0
     \<and> (\<forall>i<length qPoints0.
           out (ctl_state c) ! i \<noteq> (if i < length out0 then out0 ! i else 0)
           \<longrightarrow> tri_accepts E (qPoints0 ! i) (out (ctl_state c) ! i))
     \<and> take (length qPoints0) (missing (ctl_state c)) = resize (length qPoints0) missing0
     \<and> (\<forall>i\<in>set (drop (length qPoints0) (missing (ctl_state c))).
           i < length qPoints0
           \<and> out (ctl_state c) ! i = (if i < length out0 then out0 ! i else 0))"
proof -
  let ?n = "length qPoints0"
  have d: "data_ok E ?n (resize ?n out0) (resize ?n missing0) (ctl_state c)"
    by (rule sweep_init_data_ok' [OF assms])
  have q: "qPoints E = qPoints0"
    by (rule sweep_init_env(1) [OF assms(1)])
  from d q show ?thesis
    unfolding data_ok_def by (simp add: resize_nth)
qed

theorem C10_unwritten_entries_keep_resize_value_witness:
  "\<exists>E s0 c.
     sweep_init closed_tri id None [(1/4, 1/4), (1/2, 1/4), (1/4, 1/2), (-1, 5)]
       [(0, 0), (1, 0), (0, 1), (-1, 5)] [0, 1, 2] [] [] [] = Inr (E, s0)
     \<and> sweep_iter E 1 s0 = Inr c
     \<and> out (ctl_state c) = [0, 0, 0, 0] \<and> missing (ctl_state c) = [0, 0, 0, 0, 3]
     \<and> (\<forall>i\<in>set (drop 4 (missing (ctl_state c))). i < 4 \<and> out (ctl_state c) ! i = 0)"
proof -
  have "\<exists>E s0 c.
     sweep_init closed_tri id None [(1/4, 1/4), (1/2, 1/4), (1/4, 1/2), (-1, 5)]
       [(0, 0), (1, 0), (0, 1), (-1, 5)] [0, 1, 2] [] [] [] = Inr (E, s0)
     \<and> sweep_iter E 1 s0 = Inr c
     \<and> out (ctl_state c) = [0, 0, 0, 0] \<and> missing (ctl_state c) = [0, 0, 0, 0, 3]"
    by (simp add: run_simps)
  then obtain E s0 c where
    i: "sweep_init closed_tri id None [(1/4, 1/4), (1/2, 1/4), (1/4, 1/2), (-1, 5)]
       [(0, 0), (1, 0), (0, 1), (-1, 5)] [0, 1, 2] [] [] [] = Inr (E, s0)"
    and r: "sweep_iter E 1 s0 = Inr c"
    and v: "out (ctl_state c) = [0, 0, 0, 0]" "missing (ctl_state c) = [0, 0, 0, 0, 3]"
    by blast
  from C10_unwritten_entries_keep_resize_value [OF i r]
  have "\<forall>i\<in>set (drop 4 (missing (ctl_state c))). i < 4 \<and> out (ctl_state c) ! i = 0"
    by (simp add: eval_nat_numeral)
  with i r v show ?thesis by blast
qed

text \<open>
  C10 as stated fails when the caller passes a vector \<^verbatim>\<open>out\<close> that is not empty:
  \<^verbatim>\<open>resize\<close> keeps its entries. With \<^verbatim>\<open>out = [7,7,7,7]\<close> the query point of index 3 is
  unresolved and its entry reads \<open>7\<close>, after the first pass of the loop and when the sweep
  returns (the read of line 101 yielding \<open>1\<close>, the largest xmax).
\<close>

theorem C10_unresolved_entry_not_zero:
  "sweep closed_tri id (Some 1) [(1/4, 1/4), (1/2, 1/4), (1/4, 1/2), (-1, 5)]
       [(0, 0), (1, 0), (0, 1), (-1, 5)] [0, 1, 2] [7, 7, 7, 7] [] []
     = Inr ([0, 0, 0, 7], [0, 0, 0, 0, 3], [])
   \<and> sweep_after 1 closed_tri id None [(1/4, 1/4), (1/2, 1/4), (1/4, 1/2), (-1, 5)]
       [(0, 0), (1, 0), (0, 1), (-1, 5)] [0, 1, 2] [7, 7, 7, 7] [] []
     = Inr ([7, 7, 7, 7], [0, 0, 0, 0, 3], [])
   \<and> [0, 0, 0, 7] ! 3 \<noteq> (0::nat)"
  by (simp add: run_simps)

lemma sweep_step_barys:
  assumes "sweep_step E s = Inr c"
  shows "barys (ctl_state c) = barys s"
proof -
  consider (a) "activate E s = Inr c" | (t) "test E s = Inr c" | (d) "deactivate E s = Inr c"
    using assms by (auto simp: sweep_step_def split: if_splits)
  then show ?thesis
    by cases (simp_all add: activate_frame(5) test_cursor(2) deactivate_frame(5))
qed

lemma sweep_iter_barys:
  "sweep_iter E n s = Inr c \<Longrightarrow> barys (ctl_state c) = barys s"
proof (induction n arbitrary: s)
  case 0
  then show ?case by auto
next
  case (Suc n)
  show ?case
  proof (cases "sweep_step E s")
    case (Inl e)
    with Suc.prems show ?thesis by simp
  next
    case (Inr c1)
    show ?thesis
    proof (cases c1)
      case (Break s1)
      with Inr Suc.prems sweep_step_barys [OF Inr] show ?thesis by simp
    next
      case (Next s1)
      with Inr Suc.prems have "sweep_iter E n s1 = Inr c" by simp
      from Suc.IH [OF this] sweep_step_barys [OF Inr] Next show ?thesis by simp
    qed
  qed
qed

lemma sweep_barys_unchanged:
  assumes "sweep pit ord sent qPoints0 uvs0 tris0 out0 missing0 barys0 = Inr (o1, m1, b1)"
  shows "b1 = barys0"
proof -
  from assms obtain E s0 s1 where
    i: "sweep_init pit ord sent qPoints0 uvs0 tris0 out0 missing0 barys0 = Inr (E, s0)"
    and l: "sweep_loop E s0 = Inr s1" and b: "b1 = barys s1"
    by (auto simp: sweep_def and_then_Inr_iff)
  from sweep_loop_iter [OF l] obtain n where "sweep_iter E n s0 = Inr (Break s1)"
    by blast
  from sweep_iter_barys [OF this] have "barys s1 = barys s0" by simp
  moreover from i have "barys s0 = barys0"
    by (auto simp: sweep_init_def Let_def and_then_Inr_iff)
  ultimately show ?thesis using b by simp
qed

text \<open>
  With every read checked no run of the sweep returns, whatever the input. The loop is
  left only by the test of the last query position, whose key is the largest x of all uv
  vertices; as long as the xmin-cursor is on a triangle, \<^verbatim>\<open>mn\<close> is at most that key, so the
  test branch is not taken there; and the xmin-cursor leaves the triangles only through
  line 101.
\<close>

lemma argsort_last_max:
  assumes "Suc k = length v" and "j < length v"
  shows "v ! j \<le> v ! (argsort v ! k)"
proof -
  from assms(2) have "j \<in> set (argsort v)"
    by (simp add: set_argsort)
  then obtain p where p: "p < length (argsort v)" "argsort v ! p = j"
    by (auto simp: in_set_conv_nth)
  with assms(1) have pk: "p \<le> k" "k < length (map (\<lambda>i. v ! i) (argsort v))"
    by (simp_all add: length_argsort)
  from sorted_nth_mono [OF sorted_argsort pk] p assms(1) show ?thesis
    by (simp add: length_argsort)
qed

lemma tri_box_xmin:
  "tri_box us ts i = Inr b \<Longrightarrow> \<exists>j<length us. fst b \<le> fst (us ! j)"
  by (auto simp: tri_box_def Let_def and_then_Inr_iff vec_at_Inr_iff)

lemma build_boxes_xmin:
  "build_boxes us ts is = Inr bs \<Longrightarrow>
     length bs = length is \<and> (\<forall>b\<in>set bs. \<exists>j<length us. fst b \<le> fst (us ! j))"
proof (induction "is" arbitrary: bs)
  case Nil
  then show ?case by simp
next
  case (Cons i "is")
  from Cons.prems obtain b bs1 where b: "tri_box us ts i = Inr b"
    and r: "build_boxes us ts is = Inr bs1" and e: "bs = b # bs1"
    by (auto simp: and_then_Inr_iff)
  from Cons.IH [OF r] tri_box_xmin [OF b] e show ?case by auto
qed

lemma sweep_init_checked:
  assumes i: "sweep_init pit ord None qPoints0 uvs0 tris0 out0 missing0 barys0 = Inr (E, s0)"
    and n: "length tris0 div 3 \<le> SIZE_MAX"
  shows "checked_env E" and "live_ok E s0"
proof -
  from i obtain boxes where bx: "build_boxes uvs0 tris0 [0..<length tris0 div 3] = Inr boxes"
    and x: "xmns E = map (\<lambda>(xmn, ymn, xmx, ymx). xmn) boxes"
    and f: "sentinel_read E = None" "numTris E = length tris0 div 3"
      "mxSIdxs E = argsort (map (\<lambda>(xmn, ymn, xmx, ymx). xmx) boxes)"
      "mnSIdxs E = argsort (xmns E)" "qpSIdxs E = argsort (qpx E)" "qpx E = map fst uvs0"
    and s: "mnSIdx s0 = 0" "mnSIdxs E \<noteq> []" "mn s0 = xmns E ! (mnSIdxs E ! 0)"
      "qpSIdx s0 = 0" "qpSIdxs E \<noteq> []" "qpIdx s0 = qpSIdxs E ! 0"
      "qp s0 = qpx E ! qpIdx s0"
    by (auto simp: sweep_init_def Let_def and_then_Inr_iff vec_at_Inr_iff)
  note bb = build_boxes_xmin [OF bx]
  have x': "xmns E = map fst boxes"
    unfolding x by (rule map_cong) auto
  have "\<forall>t<length (xmns E). \<exists>j<length (qpx E). xmns E ! t \<le> qpx E ! j"
  proof (intro allI impI)
    fix t assume t: "t < length (xmns E)"
    then have "boxes ! t \<in> set boxes" by (simp add: x')
    with bb obtain j where "j < length uvs0" "fst (boxes ! t) \<le> fst (uvs0 ! j)"
      by blast
    with t show "\<exists>j<length (qpx E). xmns E ! t \<le> qpx E ! j"
      by (auto simp: x' f(6) intro!: exI [of _ j])
  qed
  moreover have "length (mxSIdxs E) \<le> SIZE_MAX" "numTris E = length (mnSIdxs E)"
    using bb n by (simp_all add: f x' length_argsort)
  ultimately show "checked_env E"
    using f by (simp add: checked_env_def)
  show "live_ok E s0"
    using s by (simp add: live_ok_def cursor_ok_def)
qed


lemma read_sentinel_checked:
  "checked_env E \<Longrightarrow> read_sentinel E = Inl (OutOfRange 101)"
  by (simp add: checked_env_def read_sentinel_def vec_at_def)

lemma activate_live:
  assumes "checked_env E" and "live_ok E s" and "activate E s = Inr c"
  shows "\<exists>s1. c = Next s1 \<and> live_ok E s1"
  using assms read_sentinel_checked [OF assms(1)]
  by (auto simp: activate_def Let_def and_then_Inr_iff vec_at_Inr_iff live_ok_def
      cursor_ok_def checked_env_def split: if_splits)

lemma deactivate_live:
  assumes "live_ok E s" and "deactivate E s = Inr c"
  shows "\<exists>s1. c = Next s1 \<and> live_ok E s1"
  using assms
  by (auto simp: deactivate_def Let_def and_then_Inr_iff vec_at_Inr_iff live_ok_def
      cursor_ok_def split: if_splits)

lemma test_live:
  assumes "live_ok E s" and "test E s = Inr c"
  shows "(\<exists>s1. c = Next s1 \<and> live_ok E s1) \<or> Suc (qpSIdx s) = length (qpSIdxs E)"
  using assms
  by (auto simp: test_def Let_def and_then_Inr_iff vec_at_Inr_iff live_ok_def
      cursor_ok_def split: if_splits option.splits)

lemma last_query_not_tested:
  assumes e: "checked_env E" and l: "live_ok E s" and k: "Suc (qpSIdx s) = length (qpSIdxs E)"
  shows "mn s \<le> qp s"
proof -
  from e have a: "mnSIdxs E = argsort (xmns E)" "qpSIdxs E = argsort (qpx E)"
    and q: "\<forall>t<length (xmns E). \<exists>j<length (qpx E). xmns E ! t \<le> qpx E ! j"
    by (simp_all add: checked_env_def)
  from l have m: "mnSIdx s < length (mnSIdxs E)" "mn s = xmns E ! (mnSIdxs E ! mnSIdx s)"
    and c: "qpIdx s = qpSIdxs E ! qpSIdx s" "qp s = qpx E ! qpIdx s"
    by (simp_all add: live_ok_def cursor_ok_def)
  from m(1) have "mnSIdxs E ! mnSIdx s < length (xmns E)"
    unfolding a(1) by (simp add: length_argsort argsort_nth_less)
  with q obtain j where j: "j < length (qpx E)" "mn s \<le> qpx E ! j"
    unfolding m(2) by blast
  from k have "Suc (qpSIdx s) = length (qpx E)"
    unfolding a(2) by (simp add: length_argsort)
  from argsort_last_max [OF this j(1)] have "qpx E ! j \<le> qp s"
    unfolding c a(2) .
  with j(2) show ?thesis by simp
qed

lemma sweep_step_live:
  assumes e: "checked_env E" and l: "live_ok E s" and st: "sweep_step E s = Inr c"
  shows "\<exists>s1. c = Next s1 \<and> live_ok E s1"
proof (cases "mn s \<le> mx s \<and> mn s \<le> qp s")
  case True
  with st have "activate E s = Inr c" by (simp add: sweep_step_def)
  from activate_live [OF e l this] show ?thesis .
next
  case False
  show ?thesis
  proof (cases "qp s \<le> mx s")
    case True
    with False st have t: "test E s = Inr c" by (auto simp: sweep_step_def)
    have "Suc (qpSIdx s) \<noteq> length (qpSIdxs E)"
    proof
      assume "Suc (qpSIdx s) = length (qpSIdxs E)"
      from last_query_not_tested [OF e l this] True False show False by simp
    qed
    with test_live [OF l t] show ?thesis by blast
  next
    case nt: False
    with False st have "deactivate E s = Inr c" by (auto simp: sweep_step_def)
    from deactivate_live [OF l this] show ?thesis .
  qed
qed

lemma sweep_iter_live:
  "checked_env E \<Longrightarrow> live_ok E s \<Longrightarrow> sweep_iter E n s = Inr c
     \<Longrightarrow> \<exists>s1. c = Next s1 \<and> live_ok E s1"
proof (induction n arbitrary: s)
  case 0
  then show ?case by auto
next
  case (Suc n)
  show ?case
  proof (cases "sweep_step E s")
    case (Inl x)
    with Suc.prems show ?thesis by simp
  next
    case (Inr c1)
    from sweep_step_live [OF Suc.prems(1,2) Inr] obtain s1 where
      s1: "c1 = Next s1" "live_ok E s1" by blast
    with Inr Suc.prems(3) have "sweep_iter E n s1 = Inr c" by simp
    from Suc.IH [OF Suc.prems(1) s1(2) this] show ?thesis .
  qed
qed

lemma checked_sweep_never_returns:
  assumes "length tris0 div 3 \<le> SIZE_MAX"
  shows "sweep pit ord None qPoints0 uvs0 tris0 out0 missing0 barys0 \<noteq> Inr r"
proof
  assume "sweep pit ord None qPoints0 uvs0 tris0 out0 missing0 barys0 = Inr r"
  then obtain E s0 s1 where
    i: "sweep_init pit ord None qPoints0 uvs0 tris0 out0 missing0 barys0 = Inr (E, s0)"
    and l: "sweep_loop E s0 = Inr s1"
    by (auto simp: sweep_def and_then_Inr_iff)
  from sweep_loop_iter [OF l] obtain n where "sweep_iter E n s0 = Inr (Break s1)"
    by blast
  from sweep_iter_live [OF sweep_init_checked [OF i assms] this] show False
    by simp
qed

text \<open>
  C1 (the code departs from it). Line 76 resizes \<^verbatim>\<open>missing\<close> to one entry per query point
  before the loop, and line 120 appends to it. One triangle \<open>(0,0), (1,0), (0,1)\<close>, a
  fourth uv vertex \<open>(-1,5)\<close>, four query points of which the first three lie in the
  triangle, all output vectors passed in empty: before the first pass \<^verbatim>\<open>missing\<close> already
  holds four zeros, and the sweep returns \<^verbatim>\<open>missing = [0,0,0,0,3]\<close>, so index \<open>0\<close>, which is
  resolved, is listed four times (the read of line 101 yielding \<open>1\<close>, the largest xmax).
\<close>

theorem C1_missing_prefilled_by_resize:
  "sweep_after 0 closed_tri id None [(1/4, 1/4), (1/2, 1/4), (1/4, 1/2), (-1, 5)]
       [(0, 0), (1, 0), (0, 1), (-1, 5)] [0, 1, 2] [] [] []
     = Inr ([0, 0, 0, 0], [0, 0, 0, 0], [])
   \<and> sweep closed_tri id (Some 1) [(1/4, 1/4), (1/2, 1/4), (1/4, 1/2), (-1, 5)]
       [(0, 0), (1, 0), (0, 1), (-1, 5)] [0, 1, 2] [] [] []
     = Inr ([0, 0, 0, 0], [0, 0, 0, 0, 3], [])"
  by (simp add: run_simps)

text \<open>
  C2 (the code departs from it). The loop of line 60 fills \<^verbatim>\<open>qpx\<close> from \<^verbatim>\<open>uvs\<close>, not from
  \<^verbatim>\<open>qPoints\<close>. With the triangle \<open>(0,0), (1,0), (0,1)\<close> and the single query point
  \<open>(1/4,1/4)\<close> the keys are \<open>[0,1,0]\<close> and the permutation has three entries; the second
  test then reads \<^verbatim>\<open>qPoints[2]\<close>, out of range (line 106). With four query points, the
  fourth outside the triangle, three tests are made and the fourth query point is never
  visited: it is neither resolved nor appended to \<^verbatim>\<open>missing\<close>. (The read of line 101 is
  taken to yield \<open>1\<close>, the largest xmax.)
\<close>

theorem C2_query_keys_taken_from_uvs:
  "and_then (sweep_init closed_tri id (Some 1) [(1/4, 1/4)] [(0, 0), (1, 0), (0, 1)] [0, 1, 2]
       [] [] []) (\<lambda>(E, s). Inr (qpx E, qpSIdxs E, qp s))
     = Inr ([0, 1, 0], [0, 2, 1], 0)
   \<and> sweep closed_tri id (Some 1) [(1/4, 1/4)] [(0, 0), (1, 0), (0, 1)] [0, 1, 2] [] [] []
     = Inl (OutOfRange 106)
   \<and> sweep closed_tri id (Some 1) [(1/4, 1/4), (1/2, 1/4), (1/4, 1/2), (5, 5)]
       [(0, 0), (1, 0), (0, 1)] [0, 1, 2] [] [] []
     = Inr ([0, 0, 0, 0], [0, 0, 0, 0], [])"
  by (simp add: run_simps)

text \<open>
  C4 (the code departs from it). One triangle \<open>(0,0), (1,0), (0,1)\<close> and a fourth uv
  vertex \<open>(5,0)\<close> to the right of its xmax. With every read checked the run ends in the
  out-of-range read of line 101. When that read is taken to yield \<open>1\<close>, the largest xmax,
  the xmax-cursor reaches the end of its permutation while the sweep coordinate \<open>5\<close> is
  still to the right of \<^verbatim>\<open>mx\<close>, and the next pass reads \<^verbatim>\<open>mxSIdxs[mxSIdx]\<close> one past the
  end (line 132). Neither run consumes the last query point.
\<close>

theorem C4_sweep_ends_in_out_of_range_read:
  "sweep closed_tri id None [(1/4, 1/4), (1/2, 1/4), (1/4, 1/2), (5, 0)]
       [(0, 0), (1, 0), (0, 1), (5, 0)] [0, 1, 2] [] [] []
     = Inl (OutOfRange 101)
   \<and> sweep closed_tri id (Some 1) [(1/4, 1/4), (1/2, 1/4), (1/4, 1/2), (5, 0)]
       [(0, 0), (1, 0), (0, 1), (5, 0)] [0, 1, 2] [] [] []
     = Inl (OutOfRange 132)"
  by (simp add: run_simps)

text \<open>
  C5 (the code departs from it). One triangle \<open>(0,0), (1,0), (0,1)\<close>, three query points
  inside it. The first pass activates the triangle and exhausts the xmin-cursor; the
  sentinel is then read at index \<open>2^64 - 1\<close> of a vector of one element (line 101). If the
  unchecked read yields \<open>-5\<close>, the sentinel \<open>-4\<close> is below every xmax, the activating branch
  wins again and reads \<^verbatim>\<open>mnSIdxs[1]\<close> past the end (line 90).
\<close>

theorem C5_sentinel_read_out_of_range:
  "sweep closed_tri id None [(1/4, 1/4), (9/10, 1/20), (1/10, 4/5)]
       [(0, 0), (1, 0), (0, 1)] [0, 1, 2] [] [] []
     = Inl (OutOfRange 101)
   \<and> sweep closed_tri id (Some (-5)) [(1/4, 1/4), (9/10, 1/20), (1/10, 4/5)]
       [(0, 0), (1, 0), (0, 1)] [0, 1, 2] [] [] []
     = Inl (OutOfRange 90)"
  by (simp add: run_simps)

text \<open>
  C6 (the code departs from it). The unit square split into the triangles
  \<open>(0,0), (1,0), (0,1)\<close> and \<open>(1,0), (1,1), (0,1)\<close>; the query point \<open>(3/4,3/4)\<close> is
  strictly inside the second one. The sweep records triangle \<open>1\<close> for it, and \<^verbatim>\<open>barys\<close>,
  passed in empty, is empty when the sweep returns: no statement of \<^verbatim>\<open>sweep\<close> writes it
  (the read of line 101 yielding \<open>1\<close>, the largest xmax).
\<close>

theorem C6_barys_left_untouched:
  "sweep closed_tri id (Some 1) [(3/4, 3/4), (1/4, 1/4), (1/2, 1/4), (1/2, 3/4)]
       [(0, 0), (1, 0), (0, 1), (1, 1)] [0, 1, 2, 1, 3, 2] [] [] []
     = Inr ([1, 0, 0, 1], [0, 0, 0, 0], [])"
  by (simp add: run_simps)

end
